theory Spec2Isabelle
  imports Main "HOL-Library.Sublist" "HOL-Library.Char_ord" "HOL-Library.List_Lexorder"
begin

section \<open>Strings\<close>

text \<open>
  Text is modelled as \<^typ>\<open>string\<close>, a list of 8-bit characters; a character stands for
  the code point of the same number (Latin-1). The string methods of Python that the
  program calls are written out for that range.
\<close>

definition startswith :: "string \<Rightarrow> string \<Rightarrow> bool" where
  \<comment> \<open>\<open>s.startswith(p)\<close>\<close>
  "startswith s p = prefix p s"

fun str_in :: "string \<Rightarrow> string \<Rightarrow> bool" where
  \<comment> \<open>\<open>sub in s\<close> on two strings: \<open>sub\<close> occurs in \<open>s\<close> as a contiguous run\<close>
  "str_in sub [] = (sub = [])"
| "str_in sub (c # cs) = (prefix sub (c # cs) \<or> str_in sub cs)"

definition lstrip :: "char \<Rightarrow> string \<Rightarrow> string" where
  \<comment> \<open>\<open>s.lstrip(c)\<close> for a single character \<open>c\<close>\<close>
  "lstrip c s = dropWhile (\<lambda>x. x = c) s"

definition lower_char :: "char \<Rightarrow> char" where
  "lower_char c =
     (let n = (of_char c :: nat)
      in if (65 \<le> n \<and> n \<le> 90) \<or> (192 \<le> n \<and> n \<le> 222 \<and> n \<noteq> 215)
         then char_of (n + 32) else c)"

definition lower :: "string \<Rightarrow> string" where
  \<comment> \<open>\<open>s.lower()\<close>\<close>
  "lower s = map lower_char s"

definition is_digit :: "char \<Rightarrow> bool" where
  \<comment> \<open>the class \<open>\d\<close>: the decimal digits\<close>
  "is_digit c = (let n = (of_char c :: nat) in 48 \<le> n \<and> n \<le> 57)"

definition numeric_char :: "char \<Rightarrow> bool" where
  \<comment> \<open>characters with a numeric value: the digits, the superscripts 1, 2, 3 and the
      fractions one quarter, one half, three quarters\<close>
  "numeric_char c =
     (let n = (of_char c :: nat)
      in (48 \<le> n \<and> n \<le> 57) \<or> n = 178 \<or> n = 179 \<or> n = 185 \<or> n = 188 \<or> n = 189 \<or> n = 190)"

definition isnumeric :: "string \<Rightarrow> bool" where
  \<comment> \<open>\<open>s.isnumeric()\<close>: at least one character, all of them numeric\<close>
  "isnumeric s = (s \<noteq> [] \<and> list_all numeric_char s)"

definition punctuation :: string where
  \<comment> \<open>\<open>string.punctuation\<close>, the 32 ASCII punctuation characters in code order\<close>
  "punctuation =
     [CHR ''!'', CHR 0x22, CHR ''#'', CHR ''$'', CHR ''%'', CHR ''&'', CHR 0x27, CHR ''('',
      CHR '')'', CHR ''*'', CHR ''+'', CHR '','', CHR ''-'', CHR ''.'', CHR ''/'', CHR '':'',
      CHR '';'', CHR ''<'', CHR ''='', CHR ''>'', CHR ''?'', CHR ''@'', CHR ''['', CHR 0x5C,
      CHR '']'', CHR ''^'', CHR ''_'', CHR 0x60, CHR ''{'', CHR ''|'', CHR ''}'', CHR ''~'']"

fun join :: "string \<Rightarrow> string list \<Rightarrow> string" where
  \<comment> \<open>\<open>sep.join(xs)\<close>\<close>
  "join sep [] = []"
| "join sep [x] = x"
| "join sep (x # y # ys) = x @ sep @ join sep (y # ys)"


section \<open>Regular expressions\<close>

text \<open>
  The four compiled patterns of the program use character classes, bounded and unbounded
  greedy repetition of a class, optional groups, concatenation and alternation. The matcher
  below tries the alternatives in the order of Python's backtracking matcher: a greedy
  quantifier takes as many characters as it can and gives them back one at a time, an
  optional group is tried present before absent, and the left branch of an alternation
  before the right one. The continuation \<open>k\<close> receives the rest of the text; a match
  returns the rest left after it.
\<close>

datatype cls = Digit | HexLower | Lit char

fun cls_match :: "cls \<Rightarrow> char \<Rightarrow> bool" where
  "cls_match Digit c = is_digit c"
| "cls_match HexLower c =
     (is_digit c \<or> (let n = (of_char c :: nat) in 97 \<le> n \<and> n \<le> 102))"
| "cls_match (Lit a) c = (c = a)"

datatype regex =
    Eps
  | Atom cls
  | Rep cls nat "nat option"
  | Opt regex
  | Seq regex regex
  | Alt regex regex

fun orelse :: "'a option \<Rightarrow> 'a option \<Rightarrow> 'a option" where
  "orelse (Some x) _ = Some x"
| "orelse None y = y"

primrec rep_match :: "cls \<Rightarrow> string \<Rightarrow> nat \<Rightarrow> nat option \<Rightarrow> (string \<Rightarrow> string option) \<Rightarrow> string option" where
  \<comment> \<open>\<open>c{lo,hi}\<close>, greedy; \<open>hi = None\<close> is no upper bound\<close>
  "rep_match c [] lo hi k = (if lo = 0 then k [] else None)"
| "rep_match c (x # xs) lo hi k =
     (if hi \<noteq> Some 0 \<and> cls_match c x
      then orelse (rep_match c xs (lo - 1) (map_option (\<lambda>h. h - 1) hi) k)
                  (if lo = 0 then k (x # xs) else None)
      else if lo = 0 then k (x # xs) else None)"

primrec re_match_k :: "regex \<Rightarrow> string \<Rightarrow> (string \<Rightarrow> string option) \<Rightarrow> string option" where
  "re_match_k Eps s k = k s"
| "re_match_k (Atom c) s k =
     (case s of [] \<Rightarrow> None | x # xs \<Rightarrow> if cls_match c x then k xs else None)"
| "re_match_k (Rep c lo hi) s k = rep_match c s lo hi k"
| "re_match_k (Opt r) s k = orelse (re_match_k r s k) (k s)"
| "re_match_k (Seq r1 r2) s k = re_match_k r1 s (\<lambda>s'. re_match_k r2 s' k)"
| "re_match_k (Alt r1 r2) s k = orelse (re_match_k r1 s k) (re_match_k r2 s k)"

definition match_len :: "regex \<Rightarrow> string \<Rightarrow> nat option" where
  \<comment> \<open>the length of the match of the pattern at the start of the text, if there is one\<close>
  "match_len r s = map_option (\<lambda>rest. length s - length rest) (re_match_k r s Some)"

definition re_match :: "regex \<Rightarrow> string \<Rightarrow> bool" where
  \<comment> \<open>\<open>re.match(r, s)\<close> used as a condition: the pattern matches at the start of \<open>s\<close>\<close>
  "re_match r s = (match_len r s \<noteq> None)"

fun findall :: "regex \<Rightarrow> string \<Rightarrow> string list" where
  \<comment> \<open>\<open>r.findall(s)\<close>: the non-overlapping matches, scanning from the left\<close>
  "findall r [] = (if match_len r [] = None then [] else [[]])"
| "findall r (c # cs) =
     (case match_len r (c # cs) of
        None \<Rightarrow> findall r cs
      | Some 0 \<Rightarrow> [] # findall r cs
      | Some (Suc n) \<Rightarrow> take (Suc n) (c # cs) # findall r (drop n cs))"

fun seqs :: "regex list \<Rightarrow> regex" where
  "seqs [] = Eps"
| "seqs [r] = r"
| "seqs (r # rs) = Seq r (seqs rs)"

definition lit :: "string \<Rightarrow> regex" where
  "lit s = seqs (map (\<lambda>c. Atom (Lit c)) s)"

definition zipPatt :: regex where
  \<comment> \<open>\<^verbatim>\<open>\d{5}(?:-\d{4})?\<close>\<close>
  "zipPatt = Seq (Rep Digit 5 (Some 5)) (Opt (Seq (Atom (Lit CHR ''-'')) (Rep Digit 4 (Some 4))))"

definition phonePatt :: regex where
  \<comment> \<open>\<^verbatim>\<open>\(?\d{3}\)? -?\d{3}-? *-?\d{4}\<close>\<close>
  "phonePatt = seqs
     [Opt (Atom (Lit CHR ''('')), Rep Digit 3 (Some 3), Opt (Atom (Lit CHR '')'')),
      Atom (Lit CHR '' ''), Opt (Atom (Lit CHR ''-'')), Rep Digit 3 (Some 3),
      Opt (Atom (Lit CHR ''-'')), Rep (Lit CHR '' '') 0 None, Opt (Atom (Lit CHR ''-'')),
      Rep Digit 4 (Some 4)]"

definition dimension_patt :: regex where
  \<comment> \<open>\<^verbatim>\<open>\d+px|\d+em|\d+pt|\d+rem\<close>\<close>
  "dimension_patt =
     Alt (Seq (Rep Digit 1 None) (lit ''px''))
      (Alt (Seq (Rep Digit 1 None) (lit ''em''))
        (Alt (Seq (Rep Digit 1 None) (lit ''pt''))
             (Seq (Rep Digit 1 None) (lit ''rem''))))"

definition hash_patt :: regex where
  \<comment> \<open>\<^verbatim>\<open>[a-f0-9]{32,64}\<close>\<close>
  "hash_patt = Rep HexLower 32 (Some 64)"

definition base_url :: string where
  "base_url = ''https://casl.website/''"


section \<open>The web and the parsed page\<close>

text \<open>
  A page is the body of a response together with what the HTML parser reads in it: the
  \<open>href\<close> of every anchor that has one and the \<open>src\<close> of every image that has one, in
  document order, and the visible text once the \<open>script\<close> and \<open>style\<close> elements
  are removed. A site is a finite table from URLs to pages; a URL that is not in the table
  is one whose request raises \<open>RequestException\<close>.
\<close>

record page =
  content :: string
  hrefs :: "string list"
  srcs :: "string list"
  visible_text :: string

type_synonym site = "(string \<times> page) list"

definition fetch_page :: "site \<Rightarrow> string \<Rightarrow> page option" where
  \<comment> \<open>the response of the site, or \<open>None\<close> on the exception path\<close>
  "fetch_page site url = map_of site url"

definition extract_urls :: "page \<Rightarrow> string set" where
  "extract_urls soup =
     fold (\<lambda>href urls.
             if startswith href ''http'' \<or> startswith href ''https''
             then (if str_in ''casl.website'' href then insert href urls else urls)
             else urls)
          (hrefs soup) {}"

definition resolve_image :: "string \<Rightarrow> string \<Rightarrow> string" where
  \<comment> \<open>the body of the loop of \<open>extract_image_urls\<close>, for the configured base URL \<open>base\<close>\<close>
  "resolve_image base img_url =
     (if startswith img_url ''/'' then base @ lstrip CHR ''/'' img_url else img_url)"

definition extract_image_urls :: "string \<Rightarrow> page \<Rightarrow> string set" where
  "extract_image_urls base soup =
     fold (\<lambda>img_url image_urls. insert (resolve_image base img_url) image_urls) (srcs soup) {}"

definition extract_phone_numbers :: "string \<Rightarrow> string set" where
  "extract_phone_numbers text = set (findall phonePatt text)"

definition extract_zip_codes :: "string \<Rightarrow> string set" where
  "extract_zip_codes text = set (findall zipPatt text)"


section \<open>The lexical filter and the lexical analysis\<close>

text \<open>
  The stop word set is data of the language toolkit, and so are the tokenizer, the tagger
  and the lemmatizer: they are parameters of the model. So is the order in which Python
  iterates a set, \<open>iter\<close>, which the language leaves open.
\<close>

definition non_content :: "string set \<Rightarrow> string \<Rightarrow> bool" where
  \<comment> \<open>the condition under which the loop of \<open>filter_non_content_words\<close> skips a token\<close>
  "non_content stopwords_set word =
     (lower word \<in> stopwords_set \<or>
      re_match dimension_patt word \<or>
      re_match hash_patt word \<or>
      str_in word punctuation \<or>
      isnumeric word \<or>
      startswith word ''http'' \<or>
      startswith word ''//'' \<or>
      CHR ''='' \<in> set word)"

definition filter_non_content_words :: "string set \<Rightarrow> string list \<Rightarrow> string list" where
  "filter_non_content_words stopwords_set tokens =
     fold (\<lambda>word filtered_tokens.
             if non_content stopwords_set word then filtered_tokens
             else filtered_tokens @ [word])
          tokens []"

record nlp =
  word_tokenize :: "string \<Rightarrow> string list"
  pos_tag :: "string list \<Rightarrow> (string \<times> string) list"
  lemmatize :: "string \<Rightarrow> string"

definition iteration_order :: "(string set \<Rightarrow> string list) \<Rightarrow> bool" where
  \<comment> \<open>iterating a finite set yields each of its elements once\<close>
  "iteration_order iter = (\<forall>S. finite S \<longrightarrow> set (iter S) = S \<and> distinct (iter S))"

definition Counter :: "string list \<Rightarrow> (string \<rightharpoonup> nat)" where
  \<comment> \<open>\<open>collections.Counter(xs)\<close>: each element of \<open>xs\<close> with the number of its occurrences\<close>
  "Counter xs = (\<lambda>w. if w \<in> set xs then Some (count_list xs w) else None)"

definition extract_vocabulary :: "string set \<Rightarrow> nlp \<Rightarrow> string \<Rightarrow> string set" where
  "extract_vocabulary stopwords_set tk text =
     (let tokens = word_tokenize tk (lower text);
          filtered_tokens = filter_non_content_words stopwords_set tokens
      in set filtered_tokens)"

definition tag_step :: "string set \<Rightarrow> nlp \<Rightarrow> string \<times> string \<Rightarrow> string set \<times> string set \<Rightarrow> string set \<times> string set" where
  \<comment> \<open>one round of the loop over the tagged tokens, on the pair of candidate sets\<close>
  "tag_step stopwords_set tk wt acc =
     (let lemmatized_word = lemmatize tk (lower (fst wt))
      in if startswith (snd wt) ''VB'' \<and> lemmatized_word \<notin> stopwords_set
         then (insert lemmatized_word (fst acc), snd acc)
         else if startswith (snd wt) ''NN'' \<and> lemmatized_word \<notin> stopwords_set
         then (fst acc, insert lemmatized_word (snd acc))
         else acc)"

definition refine_verbs_and_nouns ::
  "(string set \<Rightarrow> string list) \<Rightarrow> string set \<Rightarrow> nlp \<Rightarrow> string \<Rightarrow>
   string list \<times> string list \<times> (string \<rightharpoonup> nat) \<times> (string \<rightharpoonup> nat)" where
  "refine_verbs_and_nouns iter stopwords_set tk text =
     (let tokens = word_tokenize tk text;
          pos_tags = pos_tag tk tokens;
          sets = fold (tag_step stopwords_set tk) pos_tags ({}, {});
          refined_verbs = filter_non_content_words stopwords_set (iter (fst sets));
          refined_nouns = filter_non_content_words stopwords_set (iter (snd sets));
          verb_freq = Counter refined_verbs;
          noun_freq = Counter refined_nouns
      in (refined_verbs, refined_nouns, verb_freq, noun_freq))"


section \<open>The traversal\<close>

text \<open>
  The state of the loop of \<open>scrape_site\<close>: its five local aggregates, and two logs of
  what the loop did, in order: \<open>requested\<close>, the URLs handed to \<open>fetch_page\<close>, and
  \<open>extracted\<close>, the URLs for which the extraction block ran.
\<close>

record crawl_state =
  visited_urls :: "string set"
  all_image_urls :: "string set"
  all_phone_numbers :: "string set"
  all_zip_codes :: "string set"
  all_text :: "string list"
  requested :: "string list"
  extracted :: "string list"

definition init_state :: crawl_state where
  "init_state = \<lparr>visited_urls = {}, all_image_urls = {}, all_phone_numbers = {},
     all_zip_codes = {}, all_text = [], requested = [], extracted = []\<rparr>"

definition process_page :: "string \<Rightarrow> page \<Rightarrow> crawl_state \<Rightarrow> crawl_state" where
  \<comment> \<open>the extraction block, from \<open>visited_urls.add\<close> to the update of the zip codes\<close>
  "process_page current_url p st =
     st\<lparr>visited_urls := insert current_url (visited_urls st),
        all_text := all_text st @ [visible_text p],
        all_image_urls := all_image_urls st \<union> extract_image_urls base_url p,
        all_phone_numbers := all_phone_numbers st \<union> extract_phone_numbers (content p),
        all_zip_codes := all_zip_codes st \<union> extract_zip_codes (content p),
        extracted := extracted st @ [current_url]\<rparr>"

function crawl_loop ::
  "(string set \<Rightarrow> string list) \<Rightarrow> site \<Rightarrow> string list \<Rightarrow> crawl_state \<Rightarrow> crawl_state" where
  "crawl_loop iter site pages_to_visit st =
     (if pages_to_visit = [] then st
      else
        let current_url = last pages_to_visit;
            rest = butlast pages_to_visit
        in if current_url \<in> visited_urls st then crawl_loop iter site rest st
           else
             let st1 = st\<lparr>requested := requested st @ [current_url]\<rparr>
             in case fetch_page site current_url of
                  None \<Rightarrow> crawl_loop iter site rest st1
                | Some p \<Rightarrow>
                    if content p = [] then crawl_loop iter site rest st1
                    else
                      let st2 = process_page current_url p st1;
                          new_urls = extract_urls p
                      in crawl_loop iter site (rest @ iter (new_urls - visited_urls st2)) st2)"
  by pat_completeness auto


termination crawl_loop
proof (relation "inv_image (less_than <*lex*> less_than)
         (\<lambda>(iter, site, pages_to_visit, st).
            (card (fst ` set site - visited_urls st), length pages_to_visit))", goal_cases)
  case 1
  show ?case by (intro wf_inv_image wf_lex_prod wf_less_than)
next
  case (2 iter site pages_to_visit st)
  then show ?case by simp
next
  case (3 iter site pages_to_visit st)
  then show ?case by simp
next
  case (4 iter site pages_to_visit st x xa xb p)
  then show ?case by simp
next
  case (5 iter site pages_to_visit st x xa xb p xc xd)
  then have "last pages_to_visit \<in> fst ` set site - visited_urls st"
    by (auto simp: fetch_page_def dest: map_of_SomeD intro: rev_image_eqI)
  then have "card (fst ` set site - insert (last pages_to_visit) (visited_urls st))
             < card (fst ` set site - visited_urls st)"
    by (metis Diff_insert card_Diff1_less finite_Diff finite_imageI finite_set)
  with 5 show ?case by (simp add: process_page_def)
qed

declare crawl_loop.simps [simp del]

definition crawl :: "(string set \<Rightarrow> string list) \<Rightarrow> site \<Rightarrow> string \<Rightarrow> crawl_state" where
  \<comment> \<open>the loop of \<open>scrape_site\<close>, started on the seed with empty aggregates\<close>
  "crawl iter site url = crawl_loop iter site [url] init_state"

record crawl_result =
  unique_urls :: "string set"
  image_urls :: "string set"
  phone_numbers :: "string set"
  zip_codes :: "string set"
  vocabulary :: "string set"
  verbs :: "string list"
  nouns :: "string list"
  verb_freq :: "string \<rightharpoonup> nat"
  noun_freq :: "string \<rightharpoonup> nat"

definition scrape_site ::
  "(string set \<Rightarrow> string list) \<Rightarrow> string set \<Rightarrow> nlp \<Rightarrow> site \<Rightarrow> string \<Rightarrow> crawl_result" where
  "scrape_site iter stopwords_set tk site url =
     (let st = crawl iter site url;
          all_text_content = join [CHR 0x0A] (all_text st);
          vocab = extract_vocabulary stopwords_set tk all_text_content;
          r = refine_verbs_and_nouns iter stopwords_set tk all_text_content
      in \<lparr>unique_urls = visited_urls st,
          image_urls = all_image_urls st,
          phone_numbers = all_phone_numbers st,
          zip_codes = all_zip_codes st,
          vocabulary = vocab,
          verbs = fst r,
          nouns = fst (snd r),
          verb_freq = fst (snd (snd r)),
          noun_freq = snd (snd (snd r))\<rparr>)"


section \<open>What one page contributes\<close>

text \<open>
  The contribution of the page at a URL to each aggregate, as the extraction block
  computes it; a URL with no page contributes nothing.
\<close>

definition page_text :: "site \<Rightarrow> string \<Rightarrow> string list" where
  "page_text site u = (case fetch_page site u of None \<Rightarrow> [] | Some p \<Rightarrow> [visible_text p])"

definition page_images :: "site \<Rightarrow> string \<Rightarrow> string set" where
  "page_images site u =
     (case fetch_page site u of None \<Rightarrow> {} | Some p \<Rightarrow> extract_image_urls base_url p)"

definition page_phones :: "site \<Rightarrow> string \<Rightarrow> string set" where
  "page_phones site u =
     (case fetch_page site u of None \<Rightarrow> {} | Some p \<Rightarrow> extract_phone_numbers (content p))"

definition page_zips :: "site \<Rightarrow> string \<Rightarrow> string set" where
  "page_zips site u =
     (case fetch_page site u of None \<Rightarrow> {} | Some p \<Rightarrow> extract_zip_codes (content p))"

definition fetch_fails :: "site \<Rightarrow> string \<Rightarrow> bool" where
  \<comment> \<open>the loop takes no page from the URL: the request raises, or the body is empty and
      the test \<open>if page_content\<close> is false\<close>
  "fetch_fails site u = (case fetch_page site u of None \<Rightarrow> True | Some p \<Rightarrow> content p = [])"

definition pure_punctuation :: "string \<Rightarrow> bool" where
  \<comment> \<open>the specification's "pure punctuation": every character is a punctuation character\<close>
  "pure_punctuation word = list_all (\<lambda>c. c \<in> set punctuation) word"

definition spec_non_content :: "string set \<Rightarrow> string \<Rightarrow> bool" where
  \<comment> \<open>the tokens the specification's lexical filter removes\<close>
  "spec_non_content stopwords_set word =
     (lower word \<in> stopwords_set \<or>
      re_match dimension_patt word \<or>
      re_match hash_patt word \<or>
      pure_punctuation word \<or>
      isnumeric word \<or>
      startswith word ''http'' \<or>
      startswith word ''//'' \<or>
      CHR ''='' \<in> set word)"


definition consistent :: "site \<Rightarrow> crawl_state \<Rightarrow> bool" where
  \<comment> \<open>the invariant of the loop: the aggregates are the contributions of the URLs of
      \<open>extracted\<close>, each listed once, which are the visited URLs and have a page\<close>
  "consistent site st =
     (distinct (extracted st) \<and>
      set (extracted st) = visited_urls st \<and>
      list_all (\<lambda>u. \<not> fetch_fails site u) (extracted st) \<and>
      all_text st = concat (map (page_text site) (extracted st)) \<and>
      all_image_urls st = \<Union> (page_images site ` set (extracted st)) \<and>
      all_phone_numbers st = \<Union> (page_phones site ` set (extracted st)) \<and>
      all_zip_codes st = \<Union> (page_zips site ` set (extracted st)))"


section \<open>Requests whose answers change\<close>


















section \<open>Example sites\<close>

definition url_b :: string where
  "url_b = ''https://casl.website/b''"

definition url_x :: string where
  "url_x = ''https://casl.website/x''"

definition example_site :: site where
  \<comment> \<open>the home page and page b both link to x, which no request can fetch\<close>
  "example_site =
     [(base_url, \<lparr>content = ''<p>home 30301-1234</p>'', hrefs = [url_x, url_b],
                  srcs = [''/img/a.png''], visible_text = ''home 30301-1234''\<rparr>),
      (url_b, \<lparr>content = ''<p>b</p>'', hrefs = [url_x, base_url], srcs = [],
               visible_text = ''b''\<rparr>)]"

definition cycle_site :: site where
  \<comment> \<open>two pages that link to each other\<close>
  "cycle_site =
     [(base_url, \<lparr>content = ''<p>a</p>'', hrefs = [url_b], srcs = [], visible_text = ''a''\<rparr>),
      (url_b, \<lparr>content = ''<p>b</p>'', hrefs = [base_url], srcs = [], visible_text = ''b''\<rparr>)]"

definition empty_body_site :: site where
  \<comment> \<open>the seed answers with an empty body\<close>
  "empty_body_site = [(base_url, \<lparr>content = [], hrefs = [], srcs = [], visible_text = []\<rparr>)]"

definition toy_nlp :: nlp where
  \<comment> \<open>a toolkit for one sentence: three tokens, their tags, and the plural reduced\<close>
  "toy_nlp =
     \<lparr>word_tokenize = (\<lambda>t. [''Dogs'', ''chase'', ''dogs'']),
      pos_tag = (\<lambda>ts. zip ts [''NNS'', ''VBP'', ''NNS'']),
      lemmatize = (\<lambda>w. if w = ''dogs'' then ''dog'' else w)\<rparr>"





section \<open>Lemmas on the extractors and the filter\<close>

lemma fold_skip_append:
  "fold (\<lambda>w acc. if P w then acc else acc @ [w]) ts acc = acc @ filter (\<lambda>w. \<not> P w) ts"
  by (induction ts arbitrary: acc) simp_all

lemma filter_non_content_words_filter:
  "filter_non_content_words sw ts = filter (\<lambda>w. \<not> non_content sw w) ts"
  by (simp add: filter_non_content_words_def fold_skip_append)

lemma fold_insert_if:
  "fold (\<lambda>x A. if C x then insert (f x) A else A) xs A0 = A0 \<union> f ` {x \<in> set xs. C x}"
  by (induction xs arbitrary: A0) auto

lemma extract_image_urls_image:
  "extract_image_urls base p = resolve_image base ` set (srcs p)"
  using fold_insert_if [of "\<lambda>_. True" "resolve_image base" "srcs p" "{}"]
  by (simp add: extract_image_urls_def)

lemma extract_urls_set:
  "extract_urls p =
     {h \<in> set (hrefs p). (startswith h ''http'' \<or> startswith h ''https'') \<and> str_in ''casl.website'' h}"
proof -
  have "extract_urls p =
     fold (\<lambda>h A. if (startswith h ''http'' \<or> startswith h ''https'') \<and> str_in ''casl.website'' h
                   then insert (id h) A else A) (hrefs p) {}"
    unfolding extract_urls_def by (rule arg_cong [where f = "\<lambda>g. fold g (hrefs p) {}"]) (auto simp: fun_eq_iff)
  then show ?thesis by (simp only: fold_insert_if) auto
qed

lemma finite_extract_urls: "finite (extract_urls p)"
  by (simp add: extract_urls_set)

text \<open>
  Claim C9. The lexical filter is idempotent: filtering the output of
  \<open>filter_non_content_words\<close> again gives the same sequence, for every stop word set and
  every token sequence.
\<close>

theorem filter_idempotent:
  "filter_non_content_words sw (filter_non_content_words sw s) = filter_non_content_words sw s"
  by (simp add: filter_non_content_words_filter)

text \<open>
  Claim C6. The specification's filter removes every token of pure punctuation. The code
  tests \<open>word in string.punctuation\<close>, which asks whether the token occurs as a contiguous
  run of the 32-character punctuation string. The token \<open>...\<close> is pure punctuation and
  is no such run: the code keeps it (unless the stop word set holds it), the specification's
  filter removes it.
\<close>

theorem ellipsis_kept:
  "pure_punctuation ''...'' \<and>
   filter_non_content_words sw [''...''] = (if ''...'' \<in> sw then [] else [''...'']) \<and>
   filter (\<lambda>w. \<not> spec_non_content sw w) [''...''] = []"
proof -
  have 1: "pure_punctuation ''...''" by code_simp
  have 2: "\<not> re_match dimension_patt ''...''" by code_simp
  have 3: "\<not> re_match hash_patt ''...''" by code_simp
  have 4: "\<not> str_in ''...'' punctuation" by code_simp
  have 5: "\<not> isnumeric ''...''" by code_simp
  have 6: "\<not> startswith ''...'' ''http''" "\<not> startswith ''...'' ''//''" "lower ''...'' = ''...''"
    by code_simp+
  show ?thesis
    using 1 2 3 4 5 6
    by (simp add: filter_non_content_words_filter non_content_def spec_non_content_def)
qed

text \<open>
  Claim C3. On the text of the claim, \<open>extract_phone_numbers\<close> returns only
  \<open>(555) 123-4567\<close>: the pattern has a mandatory space after the area code, so
  \<open>555-987-6543\<close> is not matched. \<open>extract_zip_codes\<close> returns exactly the 5+4 form.
\<close>

theorem phone_zip_example:
  "extract_phone_numbers ''Call us at (555) 123-4567 or 555-987-6543 near zip 30301-1234''
     = {''(555) 123-4567''} \<and>
   ''555-987-6543'' \<notin> extract_phone_numbers ''Call us at (555) 123-4567 or 555-987-6543 near zip 30301-1234'' \<and>
   extract_zip_codes ''Call us at (555) 123-4567 or 555-987-6543 near zip 30301-1234''
     = {''30301-1234''}"
proof -
  have p: "findall phonePatt ''Call us at (555) 123-4567 or 555-987-6543 near zip 30301-1234''
             = [''(555) 123-4567'']"
    by code_simp
  have z: "findall zipPatt ''Call us at (555) 123-4567 or 555-987-6543 near zip 30301-1234''
             = [''30301-1234'']"
    by code_simp
  show ?thesis unfolding extract_phone_numbers_def extract_zip_codes_def p z by simp
qed

lemma resolve_not_slash: "\<not> startswith base ''/'' \<Longrightarrow> \<not> startswith (resolve_image base src) ''/''"
proof (cases "startswith src ''/''")
  case False
  then show ?thesis by (simp add: resolve_image_def)
next
  case True
  assume nb: "\<not> startswith base ''/''"
  have r: "resolve_image base src = base @ dropWhile (\<lambda>x. x = CHR ''/'') src"
    using True by (simp add: resolve_image_def lstrip_def)
  show ?thesis
  proof (cases base)
    case Nil
    show ?thesis
    proof (cases "dropWhile (\<lambda>x. x = CHR ''/'') src")
      case Nil
      with r \<open>base = []\<close> show ?thesis by (simp add: startswith_def)
    next
      case (Cons y ys)
      then have "y \<noteq> CHR ''/''" using hd_dropWhile [of "\<lambda>x. x = CHR ''/''" src] by auto
      with r Cons \<open>base = []\<close> show ?thesis by (simp add: startswith_def)
    qed
  next
    case (Cons b bs)
    with nb r show ?thesis by (simp add: startswith_def)
  qed
qed

text \<open>
  Claim C8. \<open>extract_image_urls\<close> returns an image source that does not start with a
  slash unchanged, and a page of such sources gives exactly its sources. Resolution is
  idempotent when the base URL does not start with a slash: the extractor run on the
  resolved sources gives the same set. On a page whose image source is \<open>/img/a.png\<close>, with
  the base \<open>https://example.test/\<close>, it returns \<open>https://example.test/img/a.png\<close>, with a
  single slash, and the same one URL when the page also holds that absolute form.
\<close>

theorem resolve_image_absolute:
  "(\<not> startswith src ''/'' \<longrightarrow>
      resolve_image base src = src \<and> extract_image_urls base (p\<lparr>srcs := [src]\<rparr>) = {src}) \<and>
   (list_all (\<lambda>s. \<not> startswith s ''/'') (srcs p) \<longrightarrow> extract_image_urls base p = set (srcs p)) \<and>
   (\<not> startswith base ''/'' \<longrightarrow>
      resolve_image base (resolve_image base src) = resolve_image base src \<and>
      extract_image_urls base (p\<lparr>srcs := map (resolve_image base) (srcs p)\<rparr>)
        = extract_image_urls base p) \<and>
   resolve_image ''https://example.test/'' ''/img/a.png'' = ''https://example.test/img/a.png'' \<and>
   extract_image_urls ''https://example.test/'' (p\<lparr>srcs := [''/img/a.png'']\<rparr>)
     = {''https://example.test/img/a.png''} \<and>
   extract_image_urls ''https://example.test/''
      (p\<lparr>srcs := [''/img/a.png'', ''https://example.test/img/a.png'']\<rparr>)
     = {''https://example.test/img/a.png''}"
proof -
  have c: "resolve_image ''https://example.test/'' ''/img/a.png'' = ''https://example.test/img/a.png''"
    by code_simp
  have c': "resolve_image ''https://example.test/'' ''https://example.test/img/a.png''
              = ''https://example.test/img/a.png''"
    by code_simp
  have a: "\<not> startswith s ''/'' \<Longrightarrow> resolve_image base s = s" for s
    by (simp add: resolve_image_def)
  have b: "\<not> startswith base ''/'' \<Longrightarrow>
      resolve_image base (resolve_image base s) = resolve_image base s" for s
    using resolve_not_slash [of base s] by (simp add: resolve_image_def [of base "resolve_image base s"])
  have l: "list_all (\<lambda>s. \<not> startswith s ''/'') (srcs p) \<Longrightarrow> extract_image_urls base p = set (srcs p)"
    by (auto simp: extract_image_urls_image list_all_iff a image_iff)
  have m: "\<not> startswith base ''/'' \<Longrightarrow>
      extract_image_urls base (p\<lparr>srcs := map (resolve_image base) (srcs p)\<rparr>)
        = extract_image_urls base p"
    by (simp add: extract_image_urls_image image_image b)
  show ?thesis using a b c c' l m by (simp add: extract_image_urls_image)
qed

theorem resolve_image_absolute_witness:
  "\<not> startswith ''https://casl.website/logo.png'' ''/'' \<and> \<not> startswith base_url ''/'' \<and>
   resolve_image base_url ''https://casl.website/logo.png'' = ''https://casl.website/logo.png'' \<and>
   extract_image_urls base_url \<lparr>content = ''x'', hrefs = [], srcs = [''https://casl.website/logo.png''], visible_text = []\<rparr>
     = {''https://casl.website/logo.png''} \<and>
   resolve_image base_url (resolve_image base_url ''/img/a.png'') = resolve_image base_url ''/img/a.png'' \<and>
   extract_image_urls base_url
      \<lparr>content = ''x'', hrefs = [], srcs = map (resolve_image base_url) [''/img/a.png'', ''b.png''], visible_text = []\<rparr>
     = extract_image_urls base_url
      \<lparr>content = ''x'', hrefs = [], srcs = [''/img/a.png'', ''b.png''], visible_text = []\<rparr> \<and>
   extract_image_urls ''https://example.test/''
      \<lparr>content = ''x'', hrefs = [], srcs = [''/img/a.png''], visible_text = []\<rparr>
     = {''https://example.test/img/a.png''}"
proof -
  have h1: "\<not> startswith ''https://casl.website/logo.png'' ''/''" by code_simp
  have h2: "\<not> startswith base_url ''/''" by code_simp
  have h3: "list_all (\<lambda>s. \<not> startswith s ''/'') [''https://casl.website/logo.png'']" by code_simp
  show ?thesis
    using h1 h2 h3
      resolve_image_absolute [of "''https://casl.website/logo.png''" base_url
         "\<lparr>content = ''x'', hrefs = [], srcs = [''https://casl.website/logo.png''], visible_text = []\<rparr>"]
      resolve_image_absolute [of "''/img/a.png''" base_url
         "\<lparr>content = ''x'', hrefs = [], srcs = [''/img/a.png'', ''b.png''], visible_text = []\<rparr>"]
    by simp
qed

text \<open>
  Claim C10. An image source that begins with two slashes is not kept: all its leading
  slashes are stripped and the rest is appended to the configured base URL, which puts the
  foreign host \<open>cdn.example.com\<close> under \<open>https://casl.website/\<close>.
\<close>

theorem protocol_relative_rewritten:
  "resolve_image base_url (''//'' @ rest) = base_url @ lstrip CHR ''/'' rest \<and>
   resolve_image base_url (''//'' @ rest) \<noteq> ''//'' @ rest \<and>
   extract_image_urls base_url (p\<lparr>srcs := [''//'' @ rest]\<rparr>) = {base_url @ lstrip CHR ''/'' rest} \<and>
   resolve_image base_url ''//cdn.example.com/a.png'' = ''https://casl.website/cdn.example.com/a.png''"
proof -
  have a: "resolve_image base_url (''//'' @ rest) = base_url @ lstrip CHR ''/'' rest"
    by (simp add: resolve_image_def startswith_def lstrip_def)
  have b: "resolve_image base_url ''//cdn.example.com/a.png'' = ''https://casl.website/cdn.example.com/a.png''"
    by code_simp
  have c: "base_url @ lstrip CHR ''/'' rest \<noteq> ''//'' @ rest"
    by (simp add: base_url_def)
  show ?thesis using a b c by (simp add: extract_image_urls_image)
qed


section \<open>The traversal: invariant and claims\<close>

lemma crawl_loop_rule:
  assumes init: "I pages_to_visit st"
    and skip: "\<And>ptv s. I ptv s \<Longrightarrow> ptv \<noteq> [] \<Longrightarrow> last ptv \<in> visited_urls s \<Longrightarrow> I (butlast ptv) s"
    and fail: "\<And>ptv s. I ptv s \<Longrightarrow> ptv \<noteq> [] \<Longrightarrow> last ptv \<notin> visited_urls s \<Longrightarrow>
                 (fetch_page site (last ptv) = None \<or>
                  (\<exists>p. fetch_page site (last ptv) = Some p \<and> content p = [])) \<Longrightarrow>
                 I (butlast ptv) (s\<lparr>requested := requested s @ [last ptv]\<rparr>)"
    and ok: "\<And>ptv s p. I ptv s \<Longrightarrow> ptv \<noteq> [] \<Longrightarrow> last ptv \<notin> visited_urls s \<Longrightarrow>
                 fetch_page site (last ptv) = Some p \<Longrightarrow> content p \<noteq> [] \<Longrightarrow>
                 I (butlast ptv @ iter (extract_urls p - insert (last ptv) (visited_urls s)))
                   (process_page (last ptv) p (s\<lparr>requested := requested s @ [last ptv]\<rparr>))"
  shows "I [] (crawl_loop iter site pages_to_visit st)"
  using assms
proof (induction iter site pages_to_visit st rule: crawl_loop.induct)
  case (1 iter site ptv st)
  note init = "1.prems"(1) and skip = "1.prems"(2) and fail = "1.prems"(3) and ok = "1.prems"(4)
  show ?case
  proof (cases "ptv = []")
    case True
    with init show ?thesis by (simp add: crawl_loop.simps)
  next
    case ne: False
    show ?thesis
    proof (cases "last ptv \<in> visited_urls st")
      case True
      have "I [] (crawl_loop iter site (butlast ptv) st)"
        by (rule "1.IH"(1) [OF ne refl refl True skip [OF init ne True] skip fail ok])
      with ne True show ?thesis by (subst crawl_loop.simps) simp
    next
      case nv: False
      let ?st1 = "st\<lparr>requested := requested st @ [last ptv]\<rparr>"
      show ?thesis
      proof (cases "fetch_page site (last ptv)")
        case None
        have "I (butlast ptv) ?st1" by (rule fail [OF init ne nv]) (simp add: None)
        then have "I [] (crawl_loop iter site (butlast ptv) ?st1)"
          by (rule "1.IH"(2) [OF ne refl refl nv refl None _ skip fail ok])
        with ne nv None show ?thesis by (subst crawl_loop.simps) simp
      next
        case (Some p)
        show ?thesis
        proof (cases "content p = []")
          case True
          have "I (butlast ptv) ?st1" by (rule fail [OF init ne nv]) (simp add: Some True)
          then have "I [] (crawl_loop iter site (butlast ptv) ?st1)"
            by (rule "1.IH"(3) [OF ne refl refl nv refl Some True _ skip fail ok])
          with ne nv Some True show ?thesis by (subst crawl_loop.simps) simp
        next
          case False
          let ?st2 = "process_page (last ptv) p ?st1"
          let ?next = "butlast ptv @ iter (extract_urls p - visited_urls ?st2)"
          have eq: "visited_urls ?st2 = insert (last ptv) (visited_urls st)"
            by (simp add: process_page_def)
          have "I ?next ?st2" unfolding eq by (rule ok [OF init ne nv Some False])
          then have "I [] (crawl_loop iter site ?next ?st2)"
            by (rule "1.IH"(4) [OF ne refl refl nv refl Some False refl refl _ skip fail ok])
          with ne nv Some False show ?thesis
            by (subst crawl_loop.simps) (simp add: Let_def)
        qed
      qed
    qed
  qed
qed

lemma iteration_orderD:
  "iteration_order iter \<Longrightarrow> finite S \<Longrightarrow> set (iter S) = S \<and> distinct (iter S)"
  by (simp add: iteration_order_def)

lemma iteration_order_empty: "iteration_order iter \<Longrightarrow> iter {} = []"
  using iteration_orderD [of iter "{}"] by simp

lemma iteration_order_single:
  assumes "iteration_order iter"
  shows "iter {x} = [x]"
proof -
  have s: "set (iter {x}) = {x}" and d: "distinct (iter {x})"
    using iteration_orderD [OF assms, of "{x}"] by simp_all
  have "length (iter {x}) = 1"
    using distinct_card [OF d] s by simp
  then obtain y where y: "iter {x} = [y]"
    by (cases "iter {x}") auto
  with s show ?thesis by simp
qed

lemma iteration_order_sorted: "iteration_order sorted_list_of_set"
  by (simp add: iteration_order_def)

lemma consistent_init: "consistent site init_state"
  by (simp add: consistent_def init_state_def)

lemma consistent_requested:
  "consistent site (st\<lparr>requested := r\<rparr>) = consistent site st"
  by (simp add: consistent_def)

lemma consistent_process_page:
  assumes c: "consistent site st"
    and nv: "u \<notin> visited_urls st"
    and f: "fetch_page site u = Some p"
    and ne: "content p \<noteq> []"
  shows "consistent site (process_page u p st)"
proof -
  have nx: "u \<notin> set (extracted st)" using c nv by (simp add: consistent_def)
  have ff: "\<not> fetch_fails site u" using f ne by (simp add: fetch_fails_def)
  have pt: "page_text site u = [visible_text p]" using f by (simp add: page_text_def)
  have pi: "page_images site u = extract_image_urls base_url p" using f by (simp add: page_images_def)
  have pp: "page_phones site u = extract_phone_numbers (content p)" using f by (simp add: page_phones_def)
  have pz: "page_zips site u = extract_zip_codes (content p)" using f by (simp add: page_zips_def)
  show ?thesis
    using c nx ff
    by (simp add: consistent_def process_page_def pt pi pp pz Un_commute)
qed

lemma crawl_loop_consistent:
  assumes "consistent site st"
  shows "consistent site (crawl_loop iter site pages_to_visit st)"
proof (rule crawl_loop_rule [where I = "\<lambda>_ s. consistent site s"])
  show "consistent site st" by (rule assms)
next
  fix ptv s assume "consistent site s"
  then show "consistent site s" .
next
  fix ptv s assume "consistent site s"
  then show "consistent site (s\<lparr>requested := requested s @ [last ptv]\<rparr>)"
    by (simp add: consistent_requested)
next
  fix ptv s p
  assume c: "consistent site s" and nv: "last ptv \<notin> visited_urls s"
    and f: "fetch_page site (last ptv) = Some p" and ne: "content p \<noteq> []"
  show "consistent site (process_page (last ptv) p (s\<lparr>requested := requested s @ [last ptv]\<rparr>))"
    by (rule consistent_process_page) (use c nv f ne in \<open>simp_all add: consistent_requested\<close>)
qed

lemma crawl_consistent: "consistent site (crawl iter site url)"
  unfolding crawl_def by (rule crawl_loop_consistent [OF consistent_init])

lemma scrape_site_sets:
  "unique_urls (scrape_site iter sw tk site url) = visited_urls (crawl iter site url)"
  "image_urls (scrape_site iter sw tk site url) = all_image_urls (crawl iter site url)"
  "phone_numbers (scrape_site iter sw tk site url) = all_phone_numbers (crawl iter site url)"
  "zip_codes (scrape_site iter sw tk site url) = all_zip_codes (crawl iter site url)"
  by (simp_all add: scrape_site_def Let_def)

text \<open>
  Claim C1. In every run, on every finite site, from every seed and for every iteration
  order: the URLs for which the extraction block ran are pairwise distinct, they are exactly
  the visited set, and its size is their number; the text list holds one entry for each of
  them, and the image, phone and zip sets are the unions of what each of them contributes
  once. The frequency counts are computed from that text list alone.
\<close>

theorem crawl_extracts_once:
  "(let st = crawl iter site url; r = scrape_site iter sw tk site url
    in distinct (extracted st) \<and>
       set (extracted st) = visited_urls st \<and>
       card (visited_urls st) = length (extracted st) \<and>
       unique_urls r = visited_urls st \<and>
       all_text st = concat (map (page_text site) (extracted st)) \<and>
       length (all_text st) = length (extracted st) \<and>
       image_urls r = \<Union> (page_images site ` set (extracted st)) \<and>
       phone_numbers r = \<Union> (page_phones site ` set (extracted st)) \<and>
       zip_codes r = \<Union> (page_zips site ` set (extracted st)))"
proof -
  let ?st = "crawl iter site url"
  have c: "consistent site ?st" by (rule crawl_consistent)
  then have d: "distinct (extracted ?st)" and v: "set (extracted ?st) = visited_urls ?st"
    and t: "all_text ?st = concat (map (page_text site) (extracted ?st))"
    and ok: "list_all (\<lambda>u. \<not> fetch_fails site u) (extracted ?st)"
    by (simp_all add: consistent_def)
  have card: "card (visited_urls ?st) = length (extracted ?st)"
    using distinct_card [OF d] v by simp
  have one: "\<And>u. \<not> fetch_fails site u \<Longrightarrow> length (page_text site u) = 1"
    by (simp add: fetch_fails_def page_text_def split: option.splits)
  have "\<And>xs. list_all (\<lambda>u. \<not> fetch_fails site u) xs \<Longrightarrow>
           length (concat (map (page_text site) xs)) = length xs"
    subgoal for xs by (induction xs) (simp_all add: one)
    done
  then have len: "length (all_text ?st) = length (extracted ?st)"
    using ok t by simp
  show ?thesis
    using c d v t card len by (simp add: Let_def scrape_site_sets consistent_def)
qed

lemma crawl_loop_Nil: "crawl_loop iter site [] st = st"
  by (subst crawl_loop.simps) simp

lemma crawl_loop_visit:
  assumes "u \<notin> visited_urls st" "fetch_page site u = Some p" "content p \<noteq> []"
  shows "crawl_loop iter site (ptv @ [u]) st =
         crawl_loop iter site
           (ptv @ iter (extract_urls p - insert u (visited_urls st)))
           (process_page u p (st\<lparr>requested := requested st @ [u]\<rparr>))"
  using assms by (subst crawl_loop.simps) (simp add: Let_def process_page_def)

lemma crawl_loop_fail:
  assumes "u \<notin> visited_urls st" "fetch_fails site u"
  shows "crawl_loop iter site (ptv @ [u]) st =
         crawl_loop iter site ptv (st\<lparr>requested := requested st @ [u]\<rparr>)"
  using assms
  by (subst crawl_loop.simps) (simp add: Let_def fetch_fails_def split: option.splits)

lemma crawl_loop_skip:
  assumes "u \<in> visited_urls st"
  shows "crawl_loop iter site (ptv @ [u]) st = crawl_loop iter site ptv st"
  using assms by (subst crawl_loop.simps) (simp add: Let_def)

text \<open>
  Claim C2. On a site of two pages \<open>a\<close> and \<open>b\<close> whose links lead to each other, the loop
  started at \<open>a\<close> fetches \<open>a\<close>, then \<open>b\<close>, extracts each once and stops with both
  visited. \<open>crawl_loop\<close> is a total function (its termination is proved above, for every
  site), so the run ends; the equations say in which state.
\<close>

theorem two_page_cycle:
  assumes io: "iteration_order iter"
    and ab: "a \<noteq> b"
    and ca: "content pa \<noteq> []" and cb: "content pb \<noteq> []"
    and la: "extract_urls pa = {b}" and lb: "extract_urls pb = {a}"
  shows "extracted (crawl iter [(a, pa), (b, pb)] a) = [a, b] \<and>
         requested (crawl iter [(a, pa), (b, pb)] a) = [a, b] \<and>
         visited_urls (crawl iter [(a, pa), (b, pb)] a) = {a, b}"
proof -
  let ?site = "[(a, pa), (b, pb)]"
  let ?s1 = "process_page a pa (init_state\<lparr>requested := requested init_state @ [a]\<rparr>)"
  let ?s2 = "process_page b pb (?s1\<lparr>requested := requested ?s1 @ [b]\<rparr>)"
  have fa: "fetch_page ?site a = Some pa" by (simp add: fetch_page_def)
  have fb: "fetch_page ?site b = Some pb" using ab by (simp add: fetch_page_def)
  have v1: "visited_urls ?s1 = {a}" by (simp add: process_page_def init_state_def)
  have n1: "iter (extract_urls pa - {a}) = [b]"
    using ab by (simp add: la iteration_order_single [OF io])
  have n2: "iter (extract_urls pb - {b, a}) = []"
    by (simp add: lb iteration_order_empty [OF io])
  have "crawl iter ?site a = crawl_loop iter ?site ([] @ [a]) init_state"
    by (simp add: crawl_def)
  also have "\<dots> = crawl_loop iter ?site ([] @ [b]) ?s1"
    by (subst crawl_loop_visit [OF _ fa ca]) (simp_all add: init_state_def n1)
  also have "\<dots> = crawl_loop iter ?site [] ?s2"
    by (subst crawl_loop_visit [OF _ fb cb]) (use ab in \<open>simp_all add: v1 n2\<close>)
  also have "\<dots> = ?s2" by (rule crawl_loop_Nil)
  finally have "crawl iter ?site a = ?s2" .
  then show ?thesis by (auto simp add: process_page_def init_state_def)
qed

theorem two_page_cycle_witness:
  "iteration_order sorted_list_of_set \<and> base_url \<noteq> url_b \<and>
   extracted (crawl sorted_list_of_set cycle_site base_url) = [base_url, url_b] \<and>
   requested (crawl sorted_list_of_set cycle_site base_url) = [base_url, url_b] \<and>
   visited_urls (crawl sorted_list_of_set cycle_site base_url) = {base_url, url_b}"
proof -
  let ?pa = "\<lparr>content = ''<p>a</p>'', hrefs = [url_b], srcs = [], visible_text = ''a''\<rparr>"
  let ?pb = "\<lparr>content = ''<p>b</p>'', hrefs = [base_url], srcs = [], visible_text = ''b''\<rparr>"
  have ab: "base_url \<noteq> url_b" by code_simp
  have la: "extract_urls ?pa = {url_b}" by code_simp
  have lb: "extract_urls ?pb = {base_url}" by code_simp
  have ca: "content ?pa \<noteq> []" and cb: "content ?pb \<noteq> []" by simp_all
  show ?thesis
    using two_page_cycle [OF iteration_order_sorted ab ca cb la lb] ab iteration_order_sorted
    by (simp add: cycle_site_def)
qed















lemma crawl_loop_visited_mono:
  "visited_urls st \<subseteq> visited_urls (crawl_loop iter site pages_to_visit st)"
  by (rule crawl_loop_rule [where I = "\<lambda>_ s. visited_urls st \<subseteq> visited_urls s"])
     (auto simp: process_page_def)

lemma crawl_loop_in_domain:
  assumes io: "iteration_order iter"
    and "set pages_to_visit \<subseteq> D" "visited_urls st \<subseteq> D"
    and links: "\<And>p. extract_urls p \<subseteq> D"
  shows "visited_urls (crawl_loop iter site pages_to_visit st) \<subseteq> D"
proof -
  have "(\<lambda>ptv s. set ptv \<subseteq> D \<and> visited_urls s \<subseteq> D) [] (crawl_loop iter site pages_to_visit st)"
  proof (rule crawl_loop_rule [where I = "\<lambda>ptv s. set ptv \<subseteq> D \<and> visited_urls s \<subseteq> D"], goal_cases)
    case 1
    show ?case using assms(2,3) by simp
  next
    case (2 ptv s)
    then show ?case by (auto dest: in_set_butlastD)
  next
    case (3 ptv s)
    then show ?case by (auto dest: in_set_butlastD)
  next
    case (4 ptv s p)
    have "finite (extract_urls p - insert (last ptv) (visited_urls s))"
      by (simp add: finite_extract_urls)
    then have "set (iter (extract_urls p - insert (last ptv) (visited_urls s)))
                 = extract_urls p - insert (last ptv) (visited_urls s)"
      using iteration_orderD [OF io] by blast
    moreover have "last ptv \<in> D" using 4 last_in_set by blast
    ultimately show ?case
      using 4 links [of p] by (auto simp: process_page_def dest: in_set_butlastD)
  qed
  then show ?thesis by simp
qed

lemma extract_urls_domain: "extract_urls p \<subseteq> {u. str_in ''casl.website'' u}"
  by (auto simp: extract_urls_set)

text \<open>
  Claim C5 says that a seed that fetches successfully is in the visited set. The loop tests
  \<open>if page_content\<close>: a seed whose response has an empty body is fetched without error and
  is not visited.
\<close>

theorem empty_seed_counterexample:
  "fetch_page empty_body_site base_url \<noteq> None \<and>
   base_url \<notin> visited_urls (crawl sorted_list_of_set empty_body_site base_url)"
  by code_simp

text \<open>
  Claim C5, amended. In every run started from the configured seed \<open>base_url\<close>, every
  visited URL contains the domain string \<open>casl.website\<close>; and if the seed fetches with a
  non-empty body, it is in the visited set.
\<close>

theorem visited_in_domain:
  assumes "iteration_order iter"
  shows "(\<forall>u \<in> visited_urls (crawl iter site base_url). str_in ''casl.website'' u) \<and>
         (\<not> fetch_fails site base_url \<longrightarrow> base_url \<in> visited_urls (crawl iter site base_url))"
proof -
  have seed: "str_in ''casl.website'' base_url" by code_simp
  have "visited_urls (crawl iter site base_url) \<subseteq> {u. str_in ''casl.website'' u}"
    unfolding crawl_def
    by (rule crawl_loop_in_domain [OF assms])
       (simp_all add: seed init_state_def extract_urls_domain)
  then have dom: "\<forall>u \<in> visited_urls (crawl iter site base_url). str_in ''casl.website'' u"
    by auto
  have "base_url \<in> visited_urls (crawl iter site base_url)" if nf: "\<not> fetch_fails site base_url"
  proof -
    from nf obtain p where f: "fetch_page site base_url = Some p" and ne: "content p \<noteq> []"
      by (auto simp: fetch_fails_def split: option.splits)
    have "crawl iter site base_url = crawl_loop iter site ([] @ [base_url]) init_state"
      by (simp add: crawl_def)
    also have "\<dots> = crawl_loop iter site
           ([] @ iter (extract_urls p - insert base_url (visited_urls init_state)))
           (process_page base_url p (init_state\<lparr>requested := requested init_state @ [base_url]\<rparr>))"
      by (rule crawl_loop_visit [OF _ f ne]) (simp add: init_state_def)
    finally show ?thesis
      using crawl_loop_visited_mono
        [of "process_page base_url p (init_state\<lparr>requested := requested init_state @ [base_url]\<rparr>)"
            iter site "[] @ iter (extract_urls p - insert base_url (visited_urls init_state))"]
      by (auto simp: process_page_def)
  qed
  with dom show ?thesis by blast
qed

theorem visited_in_domain_witness:
  "iteration_order sorted_list_of_set \<and> \<not> fetch_fails example_site base_url \<and>
   url_b \<in> visited_urls (crawl sorted_list_of_set example_site base_url) \<and>
   str_in ''casl.website'' url_b \<and>
   base_url \<in> visited_urls (crawl sorted_list_of_set example_site base_url)"
proof -
  have h: "\<not> fetch_fails example_site base_url" by code_simp
  have b: "url_b \<in> visited_urls (crawl sorted_list_of_set example_site base_url)" by code_simp
  show ?thesis
    using visited_in_domain [OF iteration_order_sorted, of example_site] h b
      iteration_order_sorted by blast
qed

lemma finite_fold_tag_step:
  "finite (fst acc) \<Longrightarrow> finite (snd acc) \<Longrightarrow>
   finite (fst (fold (tag_step sw tk) wts acc)) \<and> finite (snd (fold (tag_step sw tk) wts acc))"
  by (induction wts arbitrary: acc) (simp_all add: tag_step_def Let_def)

lemma count_list_distinct: "distinct xs \<Longrightarrow> w \<in> set xs \<Longrightarrow> count_list xs w = 1"
  by (induction xs) auto

lemma Counter_distinct:
  "distinct xs \<Longrightarrow> Counter xs = (\<lambda>w. if w \<in> set xs then Some 1 else None)"
  by (auto simp: Counter_def fun_eq_iff count_list_distinct)

text \<open>
  Claim C7. For every text, every frequency in the two counters returned by
  \<open>refine_verbs_and_nouns\<close> is 1: each counter maps exactly the lemmas of its filtered list
  to 1, since the list comes from iterating a set.
\<close>

theorem frequencies_are_one:
  assumes "iteration_order iter"
  shows "(case refine_verbs_and_nouns iter sw tk text of
            (vs, ns, vf, nf) \<Rightarrow>
              vf = (\<lambda>w. if w \<in> set vs then Some 1 else None) \<and>
              nf = (\<lambda>w. if w \<in> set ns then Some 1 else None) \<and>
              ran vf \<subseteq> {1} \<and> ran nf \<subseteq> {1})"
proof -
  let ?sets = "fold (tag_step sw tk) (pos_tag tk (word_tokenize tk text)) ({}, {})"
  have fin: "finite (fst ?sets)" "finite (snd ?sets)"
    using finite_fold_tag_step [of "({}, {})" sw tk] by simp_all
  have dv: "distinct (filter_non_content_words sw (iter (fst ?sets)))"
    using iteration_orderD [OF assms fin(1)] by (simp add: filter_non_content_words_filter)
  have dn: "distinct (filter_non_content_words sw (iter (snd ?sets)))"
    using iteration_orderD [OF assms fin(2)] by (simp add: filter_non_content_words_filter)
  have r: "\<And>xs::string list. ran (\<lambda>w. if w \<in> set xs then Some (1::nat) else None) \<subseteq> {1}"
    by (auto simp: ran_def split: if_splits)
  show ?thesis
    using r by (simp add: refine_verbs_and_nouns_def Let_def Counter_distinct [OF dv] Counter_distinct [OF dn])
qed

theorem frequencies_are_one_witness:
  "iteration_order sorted_list_of_set \<and>
   (case refine_verbs_and_nouns sorted_list_of_set {''the''} toy_nlp ''Dogs chase dogs'' of
      (vs, ns, vf, nf) \<Rightarrow>
        vs = [''chase''] \<and> ns = [''dog''] \<and>
        vf ''chase'' = Some 1 \<and> nf ''dog'' = Some 1 \<and> vf ''dog'' = None)"
proof -
  have v: "fst (refine_verbs_and_nouns sorted_list_of_set {''the''} toy_nlp ''Dogs chase dogs'') = [''chase'']"
    by code_simp
  have n: "fst (snd (refine_verbs_and_nouns sorted_list_of_set {''the''} toy_nlp ''Dogs chase dogs'')) = [''dog'']"
    by code_simp
  show ?thesis
    using frequencies_are_one [OF iteration_order_sorted, of "{''the''}" toy_nlp "''Dogs chase dogs''"]
      v n iteration_order_sorted
    by (auto simp: split_def)
qed

end
